theory Spec2Isabelle
  imports Main "HOL-Library.Word"
begin

unbundle bit_operations_syntax

section \<open>Python values and errors\<close>

text \<open>
  The two scripts work on Python integers (unbounded, modelled as \<open>int\<close>), on tuples of
  integers and on \<open>bytes\<close>/\<open>bytearray\<close> objects (modelled as \<open>int list\<close>; a bytearray
  only ever stores values in \<open>0..255\<close>, and storing anything else raises).  Every exception the
  interpreter can raise in the modelled code is a value of \<open>py_error\<close>.
\<close>

datatype py_error = IndexError | ValueError | KeyError | OverflowError

text \<open>Subscription \<open>xs[i]\<close> of a tuple, bytes or bytearray: a negative index counts from
  the end, anything outside raises \<open>IndexError\<close>.\<close>

definition subscr :: "int list \<Rightarrow> int \<Rightarrow> py_error + int" where
  "subscr xs i =
     (if 0 \<le> i \<and> i < int (length xs) then Inr (xs ! nat i)
      else if i < 0 \<and> - int (length xs) \<le> i then Inr (xs ! nat (int (length xs) + i))
      else Inl IndexError)"

text \<open>Item assignment \<open>xs[i] = v\<close> on a bytearray: the value must be a byte, which is
  checked first; then the index is resolved as in a subscription.\<close>

definition byte_val :: "int \<Rightarrow> bool" where
  "byte_val v = (0 \<le> v \<and> v < 256)"

definition store :: "int list \<Rightarrow> int \<Rightarrow> int \<Rightarrow> py_error + int list" where
  "store xs i v =
     (if \<not> byte_val v then Inl ValueError
      else if 0 \<le> i \<and> i < int (length xs) then Inr (xs[nat i := v])
      else if i < 0 \<and> - int (length xs) \<le> i then Inr (xs[nat (int (length xs) + i) := v])
      else Inl IndexError)"

text \<open>The largest index-sized integer, \<open>sys.maxsize\<close> of a 64-bit build.\<close>

definition ssize_max :: int where
  "ssize_max = 2 ^ 63 - 1"

text \<open>\<open>bytearray(n)\<close>: a count that is no index-sized integer raises \<open>OverflowError\<close>, a
  negative count \<open>ValueError\<close>; otherwise the result is \<open>n\<close> zero bytes (memory is taken
  to suffice).\<close>

definition bytearray :: "int \<Rightarrow> py_error + int list" where
  "bytearray n =
     (if n < - ssize_max - 1 \<or> ssize_max < n then Inl OverflowError
      else if n < 0 then Inl ValueError
      else Inr (replicate (nat n) 0))"

text \<open>\<open>xs.append(v)\<close> on a bytearray.\<close>

definition append_byte :: "int list \<Rightarrow> int \<Rightarrow> py_error + int list" where
  "append_byte xs v = (if byte_val v then Inr (xs @ [v]) else Inl ValueError)"

text \<open>Sequencing of a step that may raise with its continuation.\<close>

definition andthen :: "py_error + 'a \<Rightarrow> ('a \<Rightarrow> py_error + 'b) \<Rightarrow> py_error + 'b" where
  "andthen m k = (case m of Inl e \<Rightarrow> Inl e | Inr v \<Rightarrow> k v)"

text \<open>A \<open>for\<close> loop over a list of indices whose body updates the loop state or raises.\<close>

fun for_loop :: "'i list \<Rightarrow> ('i \<Rightarrow> 's \<Rightarrow> py_error + 's) \<Rightarrow> 's \<Rightarrow> py_error + 's" where
  "for_loop [] body s = Inr s"
| "for_loop (i # is) body s = andthen (body i s) (for_loop is body)"

section \<open>rs-test.py: the Galois field tables\<close>

definition galois_log :: "int list" where
  "galois_log = [-255, 255, 1, 240, 2, 225, 241, 53, 3, 38, 226, 133, 242, 43, 54, 210, 4, 195,39, 114, 227, 106, 134, 28, 243, 140, 44, 23, 55, 118, 211, 234, 5, 219, 196, 96, 40, 222, 115, 103, 228, 78, 107, 125, 135, 8, 29, 162, 244, 186, 141, 180, 45, 99, 24, 49, 56, 13, 119, 153, 212, 199, 235, 91, 6, 76, 220, 217, 197, 11, 97,184, 41, 36, 223, 253, 116, 138, 104, 193, 229, 86, 79, 171, 108, 165, 126, 145, 136, 34, 9, 74, 30, 32, 163, 84, 245, 173, 187, 204, 142, 81, 181, 190, 46, 88, 100, 159, 25, 231, 50, 207, 57, 147, 14, 67, 120, 128, 154, 248, 213, 167, 200, 63, 236, 110, 92, 176, 7, 161, 77, 124, 221, 102, 218, 95, 198, 90, 12, 152, 98, 48, 185, 179, 42, 209, 37, 132, 224, 52, 254, 239, 117, 233, 139, 22, 105, 27, 194, 113, 230, 206, 87, 158, 80, 189, 172, 203, 109, 175, 166, 62, 127, 247, 146, 66, 137, 192, 35, 252, 10, 183, 75, 216, 31, 83, 33, 73, 164, 144, 85, 170, 246, 65, 174, 61, 188, 202, 205, 157, 143, 169, 82, 72, 182, 215, 191, 251, 47, 178, 89, 151, 101, 94, 160, 123, 26, 112, 232, 21, 51, 238, 208, 131, 58, 69, 148, 18, 15, 16, 68, 17, 121, 149, 129, 19, 155, 59, 249, 70, 214, 250, 168, 71, 201, 156, 64, 60, 237, 130, 111, 20, 93, 122, 177, 150]"

definition galois_antilog :: "int list" where
  "galois_antilog = [1, 2, 4, 8, 16, 32, 64, 128, 45, 90, 180, 69, 138, 57, 114, 228, 229, 231, 227, 235, 251, 219, 155, 27, 54, 108, 216, 157, 23, 46, 92, 184, 93, 186, 89, 178, 73, 146, 9, 18, 36, 72, 144, 13, 26, 52, 104, 208, 141, 55, 110, 220, 149, 7, 14, 28, 56, 112, 224, 237, 247, 195, 171, 123, 246, 193, 175, 115, 230, 225, 239, 243, 203, 187, 91, 182, 65, 130, 41, 82, 164, 101, 202, 185, 95, 190, 81, 162, 105, 210, 137, 63, 126, 252, 213, 135, 35, 70, 140, 53, 106, 212, 133, 39, 78, 156, 21, 42, 84, 168, 125, 250, 217, 159, 19, 38, 76, 152, 29, 58, 116, 232, 253, 215, 131, 43, 86, 172, 117, 234, 249, 223, 147, 11, 22, 44, 88, 176, 77, 154, 25, 50, 100, 200, 189, 87, 174, 113, 226, 233, 255, 211, 139, 59, 118, 236, 245, 199, 163, 107, 214, 129, 47, 94, 188, 85, 170, 121, 242, 201, 191, 83, 166, 97, 194, 169, 127, 254, 209, 143, 51, 102, 204, 181, 71, 142, 49, 98, 196, 165, 103, 206, 177, 79, 158, 17, 34, 68, 136, 61, 122, 244, 197, 167, 99, 198, 161, 111, 222, 145, 15, 30, 60, 120, 240, 205, 183, 67, 134, 33, 66, 132, 37, 74, 148, 5, 10, 20, 40, 80, 160, 109, 218, 153, 31, 62, 124, 248, 221, 151, 3, 6, 12, 24, 48,96, 192, 173, 119, 238, 241, 207, 179, 75, 150, 1]"

text \<open>\<open>galois_mult(a, b)\<close>: three subscriptions, evaluated left to right, no test of the
  operands.\<close>

definition galois_mult :: "int \<Rightarrow> int \<Rightarrow> py_error + int" where
  "galois_mult a b =
     andthen (subscr galois_log a) (\<lambda>la.
     andthen (subscr galois_log b) (\<lambda>lb.
     subscr galois_antilog ((la + lb) mod 255)))"

text \<open>\<open>galois_pow(a, b)\<close>: \<open>range(b-1)\<close> is empty for \<open>b \<le> 1\<close>.\<close>

definition galois_pow :: "int \<Rightarrow> int \<Rightarrow> py_error + int" where
  "galois_pow a b =
     (if b = 0 then Inr 1
      else if b = 1 then Inr a
      else for_loop [0..<nat (b - 1)] (\<lambda>i r. galois_mult r a) a)"

section \<open>rs-test.py: the factor table\<close>

text \<open>The dictionary of precomputed tables, keyed by the number of ecc bytes.\<close>

definition factor_tables :: "int \<Rightarrow> int list option" where
  "factor_tables = map_of
     [(5, [228,48,15,111,62]),
      (7, [23,68,144,134,240,92,254]),
      (10, [28,24,185,166,223,248,116,255,110,61]),
      (12, [41,153,158,91,61,42,142,213,97,178,100,242]),
      (14, [156,97,192,252,95,9,157,119,138,45,18,186,83,185]),
      (18, [83,195,100,39,188,75,66,61,241,213,109,129,94,254,225,48,90,188]),
      (20, [15,195,244,9,233,71,168,2,188,160,153,145,253,79,108,82,27,174,186,172])]"

text \<open>The body of the inner loop of \<open>factor_table\<close>, for given \<open>i\<close> and \<open>j\<close>:
  \<open>factors[j]=galois_mult(factors[j],galois_pow(2,i))\<close>, then for \<open>j>0\<close>
  \<open>factors[j]=factors[j] ^ factors[j-1]\<close>.\<close>

definition factor_inner :: "nat \<Rightarrow> nat \<Rightarrow> int list \<Rightarrow> py_error + int list" where
  "factor_inner i j factors =
     andthen (subscr factors (int j)) (\<lambda>fj.
     andthen (galois_pow 2 (int i)) (\<lambda>pw.
     andthen (galois_mult fj pw) (\<lambda>m.
     andthen (store factors (int j) m) (\<lambda>factors'.
       if j > 0 then
         andthen (subscr factors' (int j)) (\<lambda>x.
         andthen (subscr factors' (int j - 1)) (\<lambda>y.
         store factors' (int j) (x XOR y)))
       else Inr factors'))))"

text \<open>The \<open>except(KeyError)\<close> branch of \<open>factor_table\<close>: the table is computed.
  \<open>range(ecc_size+1)\<close> is the outer loop, \<open>range(i-1,-1,-1)\<close> the inner one.\<close>

definition factor_table_general :: "int \<Rightarrow> py_error + int list" where
  "factor_table_general ecc_size =
     andthen (bytearray ecc_size) (\<lambda>factors.
       for_loop [0..<nat (ecc_size + 1)]
         (\<lambda>i. for_loop (rev [0..<i]) (factor_inner i)) factors)"

text \<open>\<open>factor_table(ecc_size)\<close>: the dictionary first, the computation on a missing key.\<close>

definition factor_table :: "int \<Rightarrow> py_error + int list" where
  "factor_table ecc_size =
     (case factor_tables ecc_size of
        Some tbl \<Rightarrow> Inr tbl
      | None \<Rightarrow> factor_table_general ecc_size)"

section \<open>rs-test.py: padding\<close>

text \<open>The value appended at index \<open>i\<close> after the first pad byte.\<close>

definition pad_value :: "int \<Rightarrow> int" where
  "pad_value i =
     (let p = (((149 * (i + 1)) mod 253) + 130) mod 254
      in if p = 0 then 254 else p)"

definition pad_step :: "nat \<Rightarrow> nat \<Rightarrow> int list \<Rightarrow> py_error + int list" where
  "pad_step pad_start i data =
     (if i = pad_start then append_byte data 129
      else append_byte data (pad_value (int i)))"

text \<open>The padding loop, \<open>for i in range(pad_start,data_size)\<close> with
  \<open>pad_start=len(data)\<close> taken before the loop.\<close>

definition pad :: "int list \<Rightarrow> int \<Rightarrow> py_error + int list" where
  "pad data data_size =
     (let pad_start = length data
      in for_loop [pad_start..<nat data_size] (pad_step pad_start) data)"

section \<open>rs-test.py: the ecc calculation\<close>

text \<open>One pass of the inner loop body for index \<open>j\<close>: the assignment to \<open>ecc[j]\<close>
  (zero for \<open>t==0\<close>, the table formula otherwise), then the in-place
  \<open>ecc[j]=ecc[j+1]^ecc[j]\<close> when \<open>j+1<ecc_size\<close>.\<close>

definition ecc_inner :: "int list \<Rightarrow> int \<Rightarrow> int \<Rightarrow> nat \<Rightarrow> int list \<Rightarrow> py_error + int list" where
  "ecc_inner f ecc_size t j ecc =
     andthen
       (if t = 0 then store ecc (int j) 0
        else
          andthen (subscr galois_log t) (\<lambda>lt.
          andthen (subscr f (ecc_size - int j - 1)) (\<lambda>c.
          andthen (subscr galois_log c) (\<lambda>lc.
          andthen (subscr galois_antilog ((lt + lc) mod 255)) (\<lambda>m.
          store ecc (int j) m)))))
       (\<lambda>ecc'.
          if int j + 1 < ecc_size then
            andthen (subscr ecc' (int j + 1)) (\<lambda>x.
            andthen (subscr ecc' (int j)) (\<lambda>y.
            store ecc' (int j) (x XOR y)))
          else Inr ecc')"

text \<open>The outer loop body for index \<open>i\<close>: \<open>t=data[i] ^ ecc[0]\<close>, then the sweep over
  \<open>range(ecc_size)\<close>.\<close>

definition ecc_outer :: "int list \<Rightarrow> int list \<Rightarrow> int \<Rightarrow> nat \<Rightarrow> int list \<Rightarrow> py_error + int list" where
  "ecc_outer data f ecc_size i ecc =
     andthen (subscr data (int i)) (\<lambda>d.
     andthen (subscr ecc 0) (\<lambda>e0.
     for_loop [0..<nat ecc_size] (ecc_inner f ecc_size (d XOR e0)) ecc))"

text \<open>\<open>ecc=bytearray(ecc_size)\<close> followed by the loop over \<open>range(data_size)\<close>.\<close>

definition rs_ecc :: "int list \<Rightarrow> int \<Rightarrow> int \<Rightarrow> int list \<Rightarrow> py_error + int list" where
  "rs_ecc data data_size ecc_size f =
     andthen (bytearray ecc_size) (\<lambda>ecc.
       for_loop [0..<nat data_size] (ecc_outer data f ecc_size) ecc)"

section \<open>bch-test.py\<close>

text \<open>One iteration of the loop of \<open>calc_bch\<close>.\<close>

definition bch_step :: "int \<Rightarrow> nat \<Rightarrow> int \<Rightarrow> int" where
  "bch_step p i v = (let test = v XOR (push_bit i p) in if test < v then test else v)"

text \<open>\<open>calc_bch(v, vw, p, pw)\<close>: a shift by a negative count raises \<open>ValueError\<close>; the loop
  runs over \<open>range(vw-1,-1,-1)\<close>.\<close>

definition calc_bch :: "int \<Rightarrow> int \<Rightarrow> int \<Rightarrow> int \<Rightarrow> py_error + int" where
  "calc_bch v vw p pw =
     (if pw - 1 < 0 then Inl ValueError
      else Inr (fold (bch_step p) (rev [0..<nat vw]) (push_bit (nat (pw - 1)) v)))"

section \<open>The padding as the specification words it\<close>

text \<open>
  The byte the specification puts at position \<open>i\<close> of a codeword whose data has length
  \<open>n\<close>: the byte 129 at \<open>i = n\<close>, and later
  \<open>p = (((149*(i+1)) mod 253) + 130) mod 254\<close> with 254 in place of \<open>p = 0\<close>.
  \<open>spec_pad\<close> appends these bytes for the positions from \<open>n\<close> up to the target size.
\<close>

definition spec_pad_byte :: "nat \<Rightarrow> nat \<Rightarrow> int" where
  "spec_pad_byte n i =
     (if i = n then 129
      else (let p = (((149 * (int i + 1)) mod 253) + 130) mod 254
            in if p = 0 then 254 else p))"

definition spec_pad :: "int list \<Rightarrow> nat \<Rightarrow> int list" where
  "spec_pad data target = data @ map (spec_pad_byte (length data)) [length data..<target]"

section \<open>The encoder as the specification words it\<close>

text \<open>
  The product of section 4.4 of the specification for \<open>t \<noteq> 0\<close>:
  \<open>antilog[(log[t] + log[c]) mod 255]\<close>.
\<close>

definition spec_multiply :: "int \<Rightarrow> int \<Rightarrow> int" where
  "spec_multiply t c = galois_antilog ! nat ((galois_log ! nat t + galois_log ! nat c) mod 255)"

text \<open>
  The value of slot \<open>j\<close> after the sweep for one codeword byte, from the accumulator
  \<open>ecc\<close> as the previous byte left it: the product of \<open>t\<close> and
  \<open>factors[ecc_size-1-j]\<close> (zero for \<open>t = 0\<close>), with \<open>ecc[j+1]\<close> of the previous
  accumulator XORed in when \<open>j+1 < ecc_size\<close>.
\<close>

definition spec_slot :: "int list \<Rightarrow> int list \<Rightarrow> int \<Rightarrow> nat \<Rightarrow> int" where
  "spec_slot factors ecc t j =
     (let ecc_size = length ecc;
          m = (if t = 0 then 0 else spec_multiply t (factors ! (ecc_size - 1 - j)))
      in if j + 1 < ecc_size then m XOR ecc ! (j + 1) else m)"

text \<open>The sweep for the codeword byte \<open>d\<close>, with \<open>t = d XOR ecc[0]\<close>: every slot is
  computed from the previous accumulator.\<close>

definition spec_sweep :: "int list \<Rightarrow> int list \<Rightarrow> int \<Rightarrow> int list" where
  "spec_sweep factors ecc d = map (spec_slot factors ecc (d XOR ecc ! 0)) [0..<length ecc]"

text \<open>The encoder: the sweeps for the codeword bytes in order, from the accumulator of
  \<open>ecc_size\<close> zeros; the last accumulator is the result.\<close>

definition spec_rs_encode :: "int list \<Rightarrow> int list \<Rightarrow> int list" where
  "spec_rs_encode codeword factors =
     foldl (spec_sweep factors) (replicate (length factors) 0) codeword"

section \<open>Facts about the tables\<close>

lemma length_galois_log: "length galois_log = 256"
  by (simp add: galois_log_def)

lemma length_galois_antilog: "length galois_antilog = 256"
  by (simp add: galois_antilog_def)

text \<open>Both tables are checked entry by entry: the antilog of the log of every nonzero byte
  is that byte, and every antilog entry below index 255 is a nonzero byte whose log is its
  index modulo 255.\<close>

lemma antilog_of_log_table:
  "list_all (\<lambda>a. galois_antilog ! nat ((galois_log ! nat a) mod 255) = a) [1..255]"
  by code_simp

lemma log_of_antilog_table:
  "list_all (\<lambda>k. 1 \<le> galois_antilog ! nat k \<and> galois_antilog ! nat k \<le> 255
                \<and> (galois_log ! nat (galois_antilog ! nat k)) mod 255 = k) [0..254]"
  by code_simp

lemma galois_log_0: "galois_log ! 0 = - 255"
  by (simp add: galois_log_def)

lemma galois_log_Suc_0: "galois_log ! Suc 0 = 255"
  by (simp add: galois_log_def)

lemma galois_antilog_0: "galois_antilog ! 0 = 1"
  by (simp add: galois_antilog_def)

lemma antilog_of_log:
  assumes "1 \<le> a" "a \<le> 255"
  shows "galois_antilog ! nat ((galois_log ! nat a) mod 255) = a"
  using antilog_of_log_table assms by (simp add: list_all_iff)

lemma log_of_antilog:
  assumes "0 \<le> k" "k \<le> 254"
  shows "1 \<le> galois_antilog ! nat k" "galois_antilog ! nat k \<le> 255"
    "(galois_log ! nat (galois_antilog ! nat k)) mod 255 = k"
  using log_of_antilog_table assms by (simp_all add: list_all_iff)

lemma subscr_in_range:
  "0 \<le> i \<Longrightarrow> i < int (length xs) \<Longrightarrow> subscr xs i = Inr (xs ! nat i)"
  by (simp add: subscr_def)

section \<open>The multiplication\<close>

lemma galois_mult_bytes:
  assumes "0 \<le> a" "a \<le> 255" "0 \<le> b" "b \<le> 255"
  shows "galois_mult a b =
           Inr (galois_antilog ! nat ((galois_log ! nat a + galois_log ! nat b) mod 255))"
proof -
  have m: "0 \<le> (galois_log ! nat a + galois_log ! nat b) mod 255"
    "(galois_log ! nat a + galois_log ! nat b) mod 255 < 256"
    by (simp, smt (verit) pos_mod_bound)
  show ?thesis
    using assms m
    by (simp add: galois_mult_def andthen_def subscr_in_range
        length_galois_log length_galois_antilog)
qed

lemma galois_mult_zero_left:
  assumes "1 \<le> b" "b \<le> 255"
  shows "galois_mult 0 b = Inr b"
proof -
  have "galois_mult 0 b = Inr (galois_antilog ! nat ((- 255 + galois_log ! nat b) mod 255))"
    using assms by (simp add: galois_mult_bytes galois_log_0)
  also have "(- 255 + galois_log ! nat b) mod 255 = (galois_log ! nat b) mod 255"
    by (metis uminus_add_conv_diff minus_mod_self2)
  finally show ?thesis using assms by (simp add: antilog_of_log)
qed

lemma galois_mult_zero_right:
  assumes "1 \<le> b" "b \<le> 255"
  shows "galois_mult b 0 = Inr b"
proof -
  have "galois_mult b 0 = Inr (galois_antilog ! nat ((galois_log ! nat b + - 255) mod 255))"
    using assms by (simp add: galois_mult_bytes galois_log_0)
  also have "(galois_log ! nat b + - 255) mod 255 = (galois_log ! nat b) mod 255"
    by (metis add_uminus_conv_diff minus_mod_self2)
  finally show ?thesis using assms by (simp add: antilog_of_log)
qed

lemma galois_mult_zero_zero: "galois_mult 0 0 = Inr 1"
  by (simp add: galois_mult_bytes galois_log_0 galois_antilog_0)

lemma factor_inner_first:
  "factor_inner 1 0 (replicate (Suc n) 0) = Inr (2 # replicate n 0)"
  by (simp add: factor_inner_def andthen_def subscr_def store_def byte_val_def
      galois_pow_def galois_mult_zero_left)

text \<open>
  Claim C2.  The computation of the factor table, run without the dictionary, gives
  \<open>[228,48,15,111,62]\<close> for 5 ecc bytes and \<open>[23,68,144,134,240,92,254]\<close> for 7, which are
  the entries of the dictionary, so \<open>factor_table\<close> returns the same either way.
\<close>

theorem factor_table_general_matches_dictionary:
  "factor_table_general 5 = Inr [228,48,15,111,62]
   \<and> factor_table_general 7 = Inr [23,68,144,134,240,92,254]
   \<and> factor_tables 5 = Some [228,48,15,111,62]
   \<and> factor_tables 7 = Some [23,68,144,134,240,92,254]
   \<and> factor_table 5 = factor_table_general 5
   \<and> factor_table 7 = factor_table_general 7"
proof -
  have g5: "factor_table_general 5 = Inr [228,48,15,111,62]"
    by code_simp
  have g7: "factor_table_general 7 = Inr [23,68,144,134,240,92,254]"
    by code_simp
  have d5: "factor_tables 5 = Some [228,48,15,111,62]"
    by (simp add: factor_tables_def)
  have d7: "factor_tables 7 = Some [23,68,144,134,240,92,254]"
    by (simp add: factor_tables_def)
  from g5 g7 d5 d7 show ?thesis
    by (simp add: factor_table_def)
qed

subsection \<open>The laws on nonzero bytes\<close>

lemma galois_mult_commute:
  assumes "0 \<le> a" "a \<le> 255" "0 \<le> b" "b \<le> 255"
  shows "galois_mult a b = galois_mult b a"
  using assms by (simp add: galois_mult_bytes add.commute)

lemma galois_mult_closed:
  assumes "0 \<le> a" "a \<le> 255" "0 \<le> b" "b \<le> 255"
  shows "\<exists>r. galois_mult a b = Inr r \<and> 1 \<le> r \<and> r \<le> 255"
proof -
  let ?k = "(galois_log ! nat a + galois_log ! nat b) mod 255"
  have k: "0 \<le> ?k" "?k \<le> 254"
    by (simp, smt (verit) pos_mod_bound)
  show ?thesis
    using assms log_of_antilog(1,2) [OF k] by (simp add: galois_mult_bytes)
qed

lemma galois_mult_one:
  assumes "1 \<le> a" "a \<le> 255"
  shows "galois_mult a 1 = Inr a"
proof -
  have "galois_mult a 1 = Inr (galois_antilog ! nat ((galois_log ! nat a + 255) mod 255))"
    using assms galois_mult_bytes [of a 1] by (simp add: galois_log_Suc_0)
  then show ?thesis using assms by (simp add: antilog_of_log)
qed

lemma galois_mult_assoc:
  assumes "0 \<le> a" "a \<le> 255" "0 \<le> b" "b \<le> 255" "0 \<le> c" "c \<le> 255"
  shows "andthen (galois_mult a b) (\<lambda>ab. galois_mult ab c)
       = andthen (galois_mult b c) (\<lambda>bc. galois_mult a bc)"
proof -
  let ?L = "\<lambda>x. galois_log ! nat x"
  let ?A = "\<lambda>k. galois_antilog ! nat k"
  let ?k = "(?L a + ?L b) mod 255"
  let ?m = "(?L b + ?L c) mod 255"
  have k: "0 \<le> ?k" "?k \<le> 254"
    by (simp, smt (verit) pos_mod_bound)
  have m: "0 \<le> ?m" "?m \<le> 254"
    by (simp, smt (verit) pos_mod_bound)
  note lk = log_of_antilog [OF k]
  note lm = log_of_antilog [OF m]
  have l: "andthen (galois_mult a b) (\<lambda>ab. galois_mult ab c)
           = Inr (?A ((?L (?A ?k) + ?L c) mod 255))"
    using assms lk(1,2) by (simp add: galois_mult_bytes andthen_def)
  have r: "andthen (galois_mult b c) (\<lambda>bc. galois_mult a bc)
           = Inr (?A ((?L a + ?L (?A ?m)) mod 255))"
    using assms lm(1,2) by (simp add: galois_mult_bytes andthen_def)
  have "(?L (?A ?k) + ?L c) mod 255 = (?L (?A ?k) mod 255 + ?L c) mod 255"
    by (simp add: mod_add_left_eq)
  also have "\<dots> = (?L a + ?L b + ?L c) mod 255"
    by (simp only: lk(3) mod_add_left_eq)
  finally have e1: "(?L (?A ?k) + ?L c) mod 255 = (?L a + ?L b + ?L c) mod 255" .
  have "(?L a + ?L (?A ?m)) mod 255 = (?L a + ?L (?A ?m) mod 255) mod 255"
    by (simp add: mod_add_right_eq)
  also have "\<dots> = (?L a + (?L b + ?L c)) mod 255"
    by (simp only: lm(3) mod_add_right_eq)
  finally have e2: "(?L a + ?L (?A ?m)) mod 255 = (?L a + ?L b + ?L c) mod 255"
    by (simp add: add.assoc)
  show ?thesis by (simp only: l r e1 e2)
qed

text \<open>
  Claim C9.  On the nonzero bytes \<open>1..255\<close>, \<open>galois_mult\<close> is commutative, returns a
  nonzero byte (no lookup raises), has the identity 1, and is associative: multiplying the
  product of \<open>a\<close> and \<open>b\<close> by \<open>c\<close> gives what multiplying \<open>a\<close> by the product of \<open>b\<close> and
  \<open>c\<close> gives.
\<close>

theorem galois_mult_nonzero_laws:
  "(\<forall>a\<in>{1..255}. \<forall>b\<in>{1..255}.
      galois_mult a b = galois_mult b a
      \<and> (\<exists>r\<in>{1..255}. galois_mult a b = Inr r))
   \<and> (\<forall>a\<in>{1..255}. galois_mult a 1 = Inr a)
   \<and> (\<forall>a\<in>{1..255}. \<forall>b\<in>{1..255}. \<forall>c\<in>{1..255}.
        andthen (galois_mult a b) (\<lambda>ab. galois_mult ab c)
        = andthen (galois_mult b c) (\<lambda>bc. galois_mult a bc))"
proof -
  have c1: "\<forall>a\<in>{1..255}. \<forall>b\<in>{1..255}.
      galois_mult a b = galois_mult b a \<and> (\<exists>r\<in>{1..255}. galois_mult a b = Inr r)"
  proof (intro ballI conjI)
    fix a b :: int assume "a \<in> {1..255}" "b \<in> {1..255}"
    then have ab: "0 \<le> a" "a \<le> 255" "0 \<le> b" "b \<le> 255" by simp_all
    show "galois_mult a b = galois_mult b a" by (rule galois_mult_commute [OF ab])
    show "\<exists>r\<in>{1..255}. galois_mult a b = Inr r"
      using galois_mult_closed [OF ab] by auto
  qed
  have c2: "\<forall>a\<in>{1..255}. galois_mult a 1 = Inr a"
    by (simp add: galois_mult_one)
  have c3: "\<forall>a\<in>{1..255}. \<forall>b\<in>{1..255}. \<forall>c\<in>{1..255}.
        andthen (galois_mult a b) (\<lambda>ab. galois_mult ab c)
        = andthen (galois_mult b c) (\<lambda>bc. galois_mult a bc)"
    by (intro ballI galois_mult_assoc) simp_all
  from c1 c2 c3 show ?thesis by blast
qed

theorem galois_mult_nonzero_laws_witness:
  "galois_mult 3 7 = Inr 9 \<and> galois_mult 7 3 = Inr 9 \<and> galois_mult 9 1 = Inr 9
   \<and> galois_mult 9 11 = Inr 83 \<and> galois_mult 7 11 = Inr 49 \<and> galois_mult 3 49 = Inr 83"
proof -
  have e: "galois_mult 3 7 = Inr 9" "galois_mult 9 11 = Inr 83"
    "galois_mult 7 11 = Inr 49" "galois_mult 3 49 = Inr 83"
    by code_simp+
  have m: "(3::int) \<in> {1..255}" "(7::int) \<in> {1..255}" "(9::int) \<in> {1..255}" "(11::int) \<in> {1..255}"
    by simp_all
  from galois_mult_nonzero_laws m have "galois_mult 3 7 = galois_mult 7 3" "galois_mult 9 1 = Inr 9"
    "andthen (galois_mult 3 7) (\<lambda>ab. galois_mult ab 11)
        = andthen (galois_mult 7 11) (\<lambda>bc. galois_mult 3 bc)"
    by blast+
  with e show ?thesis by (simp add: andthen_def)
qed

section \<open>The padding loop\<close>

lemma byte_val_mod_254: "byte_val (let p = x mod 254 in if p = 0 then 254 else p)"
proof -
  have "0 \<le> x mod 254" "x mod 254 < 254" by simp_all
  then show ?thesis
    unfolding byte_val_def Let_def by (cases "x mod 254 = 0") simp_all
qed

lemma byte_val_pad_value: "byte_val (pad_value i)"
  unfolding pad_value_def by (rule byte_val_mod_254)

lemma byte_val_129: "byte_val 129"
  by (simp add: byte_val_def)

lemma spec_pad_byte_eq:
  "spec_pad_byte n i = (if i = n then 129 else pad_value (int i))"
  unfolding spec_pad_byte_def pad_value_def by (rule refl)

lemma pad_step_spec: "pad_step n i xs = Inr (xs @ [spec_pad_byte n i])"
  by (simp add: pad_step_def append_byte_def spec_pad_byte_eq byte_val_pad_value byte_val_129)

lemma for_loop_pad_step:
  "for_loop js (pad_step n) xs = Inr (xs @ map (spec_pad_byte n) js)"
  by (induction js arbitrary: xs) (simp_all add: pad_step_spec andthen_def)

lemma pad_eq_spec_pad: "pad data data_size = Inr (spec_pad data (nat data_size))"
  by (simp add: pad_def spec_pad_def for_loop_pad_step Let_def)

text \<open>
  Claim C5.  For data shorter than the target size the padding loop returns, without
  raising, the sequence the specification describes: the data, then 129 at position
  \<open>len(data)\<close>, then at every later position \<open>i\<close> below the target size the byte
  \<open>p = (((149*(i+1)) mod 253) + 130) mod 254\<close>, with 254 for \<open>p = 0\<close>; its length is the
  target size.  The result is a function of the data and the target size.
\<close>

theorem pad_appends_formula_bytes:
  assumes "int (length data) < target"
  shows "\<exists>r. pad data target = Inr r
           \<and> r = spec_pad data (nat target)
           \<and> length r = nat target
           \<and> take (length data) r = data
           \<and> r ! length data = 129
           \<and> (\<forall>i. length data < i \<and> i < nat target \<longrightarrow>
                r ! i = (let p = (((149 * (int i + 1)) mod 253) + 130) mod 254
                         in if p = 0 then 254 else p))"
proof -
  let ?n = "length data"
  let ?r = "spec_pad data (nat target)"
  from assms have lt: "?n < nat target" by simp
  have len: "length ?r = nat target"
    using lt by (simp add: spec_pad_def)
  have tk: "take ?n ?r = data"
    by (simp add: spec_pad_def)
  have nth: "?r ! i = spec_pad_byte ?n i" if "?n \<le> i" "i < nat target" for i
    using that by (simp add: spec_pad_def nth_append)
  have first: "?r ! ?n = 129"
    using nth [of ?n] lt by (simp add: spec_pad_byte_def)
  have rest: "\<forall>i. ?n < i \<and> i < nat target \<longrightarrow>
                ?r ! i = (let p = (((149 * (int i + 1)) mod 253) + 130) mod 254
                         in if p = 0 then 254 else p)"
    using nth by (simp add: spec_pad_byte_def)
  from pad_eq_spec_pad len tk first rest show ?thesis by blast
qed

theorem pad_appends_formula_bytes_witness:
  "int (length [1, 2, 3 :: int]) < 8 \<and> pad [1, 2, 3] 8 = Inr [1, 2, 3, 129, 115, 11, 161, 56]"
proof -
  have h: "int (length [1, 2, 3 :: int]) < 8" by simp
  have s: "spec_pad [1, 2, 3] (nat 8) = [1, 2, 3, 129, 115, 11, 161, 56]"
    by code_simp
  from pad_appends_formula_bytes [OF h] s h show ?thesis by auto
qed

text \<open>
  Claim C7, as the code has it.  Claim C7 says that padding data longer than the target
  size fails; the loop runs over an empty range and the three bytes come back for a target
  size of two.
\<close>

theorem pad_longer_counterexample:
  "pad [1, 2, 3] 2 = Inr [1, 2, 3] \<and> int (length [1, 2, 3 :: int]) > 2"
  by (simp add: pad_def)

text \<open>
  Claim C7, amended.  For data at least as long as the target size the padding loop raises
  nothing and leaves the data as it is: nothing is appended and nothing is cut off, so
  data longer than the target size stays longer.
\<close>

theorem pad_keeps_long_data:
  "data_size \<le> int (length data) \<Longrightarrow> pad data data_size = Inr data"
  by (simp add: pad_def)

theorem pad_keeps_long_data_witness:
  "(2::int) \<le> int (length [1, 2, 3 :: int]) \<and> pad [1, 2, 3] 2 = Inr [1, 2, 3]"
  using pad_keeps_long_data [of 2 "[1, 2, 3]"] by simp

section \<open>The factor table for sizes that are not positive\<close>

lemma factor_tables_nonpositive: "ecc_size \<le> 0 \<Longrightarrow> factor_tables ecc_size = None"
  by (simp add: factor_tables_def)

text \<open>
  Claim C8, as the code has it.  Claim C8 says that \<open>factor_table\<close> fails for every size
  that is not positive; for size zero it returns the empty table.
\<close>

theorem factor_table_zero_counterexample:
  "factor_table 0 = Inr []"
  by (simp add: factor_table_def factor_tables_nonpositive factor_table_general_def
      bytearray_def ssize_max_def andthen_def)

text \<open>
  Claim C8, amended.  For every negative size \<open>factor_table\<close> fails before any entry is
  computed and gives no result: with \<open>ValueError\<close> when the size is an index-sized integer
  (\<open>-2^63 \<le> ecc_size < 0\<close>), with \<open>OverflowError\<close> below that, both raised by the allocation
  of the accumulator.  For size zero it does not fail: it returns the empty table.
\<close>

theorem factor_table_nonpositive:
  "(\<forall>ecc_size. - (2 ^ 63) \<le> ecc_size \<and> ecc_size < 0 \<longrightarrow> factor_table ecc_size = Inl ValueError)
   \<and> (\<forall>ecc_size. ecc_size < - (2 ^ 63) \<longrightarrow> factor_table ecc_size = Inl OverflowError)
   \<and> factor_table 0 = Inr []"
  by (simp add: factor_table_def factor_tables_nonpositive factor_table_general_def
      bytearray_def ssize_max_def andthen_def)

theorem factor_table_nonpositive_witness:
  "- (2 ^ 63) \<le> (- 3 :: int) \<and> (- 3 :: int) < 0 \<and> factor_table (- 3) = Inl ValueError
   \<and> (- (2 ^ 63) - 1 :: int) < - (2 ^ 63) \<and> factor_table (- (2 ^ 63) - 1) = Inl OverflowError"
proof -
  note t = factor_table_nonpositive
  have a: "- (2 ^ 63) \<le> (- 3 :: int) \<and> (- 3 :: int) < 0" by simp
  have b: "(- (2 ^ 63) - 1 :: int) < - (2 ^ 63)" by simp
  from t a have "factor_table (- 3) = Inl ValueError" by blast
  moreover from t b have "factor_table (- (2 ^ 63) - 1) = Inl OverflowError" by blast
  ultimately show ?thesis using a b by blast
qed

section \<open>The BCH remainder\<close>

lemma top_bit_clear:
  fixes x :: int
  assumes "0 \<le> x" "x < 2 ^ Suc k"
  shows "x < 2 ^ k \<longleftrightarrow> drop_bit k x = 0"
proof -
  have p: "(0::int) < 2 ^ k" by simp
  have "0 \<le> x div 2 ^ k"
    using assms(1) p by (simp add: pos_imp_zdiv_nonneg_iff)
  moreover have "0 < x div 2 ^ k \<longleftrightarrow> 2 ^ k \<le> x"
    using p by (rule pos_imp_zdiv_pos_iff)
  ultimately show ?thesis
    by (simp add: drop_bit_eq_div) linarith
qed

lemma top_bit_set:
  fixes x :: int
  assumes "2 ^ k \<le> x" "x < 2 ^ Suc k"
  shows "drop_bit k x = 1"
proof -
  have "x div 2 ^ k = 1"
    using assms by (intro int_div_pos_eq [where r = "x - 2 ^ k"]) simp_all
  then show ?thesis by (simp add: drop_bit_eq_div)
qed

lemma bch_step_bound:
  fixes v m :: int
  assumes v: "0 \<le> v" "v < 2 ^ Suc k" and m: "2 ^ k \<le> m" "m < 2 ^ Suc k"
  shows "0 \<le> (let test = v XOR m in if test < v then test else v)
       \<and> (let test = v XOR m in if test < v then test else v) < 2 ^ k"
proof -
  have m0: "0 \<le> m" using m(1) by (smt (verit) zero_le_power)
  have x0: "0 \<le> v XOR m" using v(1) m0 by simp
  have xu: "v XOR m < 2 ^ Suc k" using v m(2) by (rule XOR_upper)
  have dm: "drop_bit k m = 1" using m by (rule top_bit_set)
  show ?thesis
  proof (cases "v < 2 ^ k")
    case True
    then have "drop_bit k v = 0" using v top_bit_clear by blast
    then have "drop_bit k (v XOR m) = 1" using dm by simp
    then have "\<not> v XOR m < 2 ^ k" using top_bit_clear [OF x0 xu] by simp
    with True v(1) show ?thesis by (simp add: Let_def)
  next
    case False
    then have "drop_bit k v = 1" using v(2) top_bit_set by simp
    then have "drop_bit k (v XOR m) = 0" using dm by simp
    then have "v XOR m < 2 ^ k" using top_bit_clear [OF x0 xu] by simp
    with False x0 show ?thesis by (simp add: Let_def)
  qed
qed

lemma bch_fold_bound:
  assumes "0 \<le> v" "v < 2 ^ (w + n)" "2 ^ w \<le> p" "p < 2 ^ Suc w"
  shows "0 \<le> fold (bch_step p) (rev [0..<n]) v \<and> fold (bch_step p) (rev [0..<n]) v < 2 ^ w"
  using assms(1,2)
proof (induction n arbitrary: v)
  case 0
  then show ?case by simp
next
  case (Suc n)
  have m: "2 ^ (w + n) \<le> push_bit n p" "push_bit n p < 2 ^ Suc (w + n)"
    using assms(3,4) by (simp_all add: push_bit_eq_mult power_add)
  have v: "v < 2 ^ Suc (w + n)" using Suc.prems(2) by simp
  from bch_step_bound [OF Suc.prems(1) v m]
  have "0 \<le> bch_step p n v" "bch_step p n v < 2 ^ (w + n)"
    by (simp_all add: bch_step_def)
  from Suc.IH [OF this] show ?case by simp
qed

lemma calc_bch_bound:
  assumes "0 \<le> v" "v < 2 ^ nat vw" "2 ^ nat (pw - 1) \<le> p" "p < 2 ^ nat pw"
  shows "\<exists>r. calc_bch v vw p pw = Inr r \<and> 0 \<le> r \<and> r < 2 ^ nat (pw - 1)"
proof -
  have pw: "1 \<le> pw"
  proof (rule ccontr)
    assume "\<not> 1 \<le> pw"
    then have "nat pw = 0" "nat (pw - 1) = 0" by simp_all
    with assms(3,4) show False by simp
  qed
  let ?w = "nat (pw - 1)"
  have sw: "Suc ?w = nat pw" using pw by simp
  have v0: "0 \<le> push_bit ?w v" using assms(1) by simp
  have v1: "push_bit ?w v < 2 ^ (?w + nat vw)"
    using assms(2) by (simp add: push_bit_eq_mult power_add)
  have p1: "p < 2 ^ Suc ?w" using assms(4) sw by simp
  from bch_fold_bound [OF v0 v1 assms(3) p1] pw show ?thesis
    by (simp add: calc_bch_def)
qed

text \<open>
  Claim C3, as the code has it.  Claim C3 bounds the remainder by \<open>2^(pw-2)\<close>; for the
  5-bit value 9 and the 11-bit polynomial 1335 the remainder is 737, which has ten bits
  (the value the worked example in the file gives).
\<close>

theorem calc_bch_width_counterexample:
  "calc_bch 9 5 1335 11 = Inr 737 \<and> \<not> (737 :: int) < 2 ^ nat (11 - 2)
   \<and> (0::int) \<le> 9 \<and> (9::int) < 2 ^ 5 \<and> (2::int) ^ 10 \<le> 1335 \<and> (1335::int) < 2 ^ 11"
  by code_simp

text \<open>
  Claim C3, amended.  For a value \<open>v\<close> of bit width \<open>vw\<close> (\<open>0 \<le> v < 2^vw\<close>) and a
  polynomial \<open>p\<close> of bit width \<open>pw\<close> (its top bit at position \<open>pw-1\<close>), with
  \<open>pw > vw\<close>, \<open>calc_bch\<close> returns a remainder of bit width at most \<open>pw-1\<close>: it is
  nonnegative and less than \<open>2^(pw-1)\<close>.
\<close>

theorem calc_bch_width:
  assumes "0 \<le> v" "v < 2 ^ nat vw" "2 ^ nat (pw - 1) \<le> p" "p < 2 ^ nat pw" "vw < pw"
  shows "\<exists>r. calc_bch v vw p pw = Inr r \<and> 0 \<le> r \<and> r < 2 ^ nat (pw - 1)"
  using assms(1-4) by (rule calc_bch_bound)

theorem calc_bch_width_witness:
  "(0::int) \<le> 15 \<and> (15::int) < 2 ^ nat 5 \<and> 2 ^ nat (11 - 1) \<le> (1335::int)
   \<and> (1335::int) < 2 ^ nat 11 \<and> (5::int) < 11
   \<and> calc_bch 15 5 1335 11 = Inr 356 \<and> (356::int) < 2 ^ nat (11 - 1)"
proof -
  have h: "(0::int) \<le> 15" "(15::int) < 2 ^ nat 5" "2 ^ nat (11 - 1) \<le> (1335::int)"
    "(1335::int) < 2 ^ nat 11" "(5::int) < 11"
    by simp_all
  have e: "calc_bch 15 5 1335 11 = Inr 356" by code_simp
  from calc_bch_width [OF h] e h show ?thesis by auto
qed

text \<open>
  Claim C6.  \<open>calc_bch(0, 5, 1335, 11)\<close> is 0, and for each of the 32 format codes
  \<open>v\<close> in \<open>0..31\<close> the call \<open>calc_bch(v, 5, 1335, 11)\<close> returns a remainder less than
  \<open>2^10\<close>.
\<close>

theorem calc_bch_format_codes:
  "calc_bch 0 5 1335 11 = Inr 0
   \<and> (\<forall>v\<in>{0..31}. \<exists>r. calc_bch v 5 1335 11 = Inr r \<and> 0 \<le> r \<and> r < 2 ^ 10)"
proof -
  have z: "calc_bch 0 5 1335 11 = Inr 0" by code_simp
  have "\<exists>r. calc_bch v 5 1335 11 = Inr r \<and> 0 \<le> r \<and> r < 2 ^ 10" if "v \<in> {0..31}" for v
  proof -
    have h: "0 \<le> v" "v < 2 ^ nat 5" "2 ^ nat (11 - 1) \<le> (1335::int)" "(1335::int) < 2 ^ nat 11"
      using that by simp_all
    have n: "nat (11 - 1) = 10" by simp
    from calc_bch_bound [OF h] show ?thesis unfolding n .
  qed
  with z show ?thesis by blast
qed

theorem calc_bch_format_codes_witness:
  "(9::int) \<in> {0..31} \<and> calc_bch 9 5 1335 11 = Inr 737 \<and> (737::int) < 2 ^ 10"
proof -
  have e: "calc_bch 9 5 1335 11 = Inr 737" by code_simp
  have "\<exists>r. calc_bch 9 5 1335 11 = Inr r \<and> 0 \<le> r \<and> r < 2 ^ 10"
    using calc_bch_format_codes by simp
  with e show ?thesis by simp
qed

section \<open>The ecc loop\<close>

lemma subscr_nat: "j < length xs \<Longrightarrow> subscr xs (int j) = Inr (xs ! j)"
  by (simp add: subscr_def)

lemma store_nat:
  "j < length xs \<Longrightarrow> byte_val v \<Longrightarrow> store xs (int j) v = Inr (xs[j := v])"
  by (simp add: store_def)

lemma byte_val_xor: "byte_val a \<Longrightarrow> byte_val b \<Longrightarrow> byte_val (a XOR b)"
  unfolding byte_val_def using XOR_upper [of a 8 b] by simp

lemma byte_val_nth: "list_all byte_val xs \<Longrightarrow> j < length xs \<Longrightarrow> byte_val (xs ! j)"
  by (simp add: list_all_length)

lemma subscr_log_byte: "byte_val t \<Longrightarrow> subscr galois_log t = Inr (galois_log ! nat t)"
  by (simp add: byte_val_def subscr_in_range length_galois_log)

lemma antilog_lookup:
  "subscr galois_antilog (x mod 255) = Inr (galois_antilog ! nat (x mod 255))
   \<and> byte_val (galois_antilog ! nat (x mod 255))"
proof -
  have k: "0 \<le> x mod 255" "x mod 255 \<le> 254"
    by (simp, smt (verit) pos_mod_bound)
  from log_of_antilog(1,2) [OF k] k show ?thesis
    by (simp add: subscr_in_range length_galois_antilog byte_val_def)
qed

lemma byte_val_spec_multiply: "byte_val (spec_multiply t c)"
  unfolding spec_multiply_def using antilog_lookup by blast

lemma byte_val_spec_slot:
  assumes "list_all byte_val ecc"
  shows "byte_val (spec_slot factors ecc t j)"
proof -
  let ?m = "if t = 0 then 0 else spec_multiply t (factors ! (length ecc - 1 - j))"
  have m: "byte_val ?m"
    using byte_val_spec_multiply by (simp add: byte_val_def)
  show ?thesis
  proof (cases "j + 1 < length ecc")
    case True
    then have "byte_val (ecc ! (j + 1))" using assms byte_val_nth by blast
    with m True show ?thesis
      by (simp add: spec_slot_def Let_def byte_val_xor del: One_nat_def)
  next
    case False
    with m show ?thesis by (simp add: spec_slot_def Let_def)
  qed
qed

lemma list_all_update:
  "list_all P xs \<Longrightarrow> P v \<Longrightarrow> list_all P (xs[k := v])"
  using set_update_subset_insert [of xs k v] by (auto simp: list_all_iff)

lemma ecc_inner_product:
  assumes f: "length f = n" "list_all byte_val f" and t: "byte_val t" and j: "j < n"
    and e: "j < length ecc"
  shows "(if t = 0 then store ecc (int j) 0
          else
            andthen (subscr galois_log t) (\<lambda>lt.
            andthen (subscr f (int n - int j - 1)) (\<lambda>c.
            andthen (subscr galois_log c) (\<lambda>lc.
            andthen (subscr galois_antilog ((lt + lc) mod 255)) (\<lambda>m.
            store ecc (int j) m)))))
         = Inr (ecc[j := (if t = 0 then 0 else spec_multiply t (f ! (n - 1 - j)))])"
proof (cases "t = 0")
  case True
  then show ?thesis using e by (simp add: store_nat byte_val_def)
next
  case False
  define c where "c = f ! (n - 1 - j)"
  define lt where "lt = galois_log ! nat t"
  define lc where "lc = galois_log ! nat c"
  define m where "m = galois_antilog ! nat ((lt + lc) mod 255)"
  have idx: "int n - int j - 1 = int (n - 1 - j)" using j by simp
  have len: "n - 1 - j < length f" using j f(1) by simp
  have bc: "byte_val c" unfolding c_def using f(2) len by (rule byte_val_nth)
  have 1: "subscr galois_log t = Inr lt"
    unfolding lt_def using t by (rule subscr_log_byte)
  have 2: "subscr f (int n - int j - 1) = Inr c"
    unfolding idx c_def using len by (rule subscr_nat)
  have 3: "subscr galois_log c = Inr lc"
    unfolding lc_def using bc by (rule subscr_log_byte)
  have 4: "subscr galois_antilog ((lt + lc) mod 255) = Inr m" and bm: "byte_val m"
    unfolding m_def using antilog_lookup [of "lt + lc"] by simp_all
  have 5: "store ecc (int j) m = Inr (ecc[j := m])"
    using e bm by (rule store_nat)
  have 6: "m = spec_multiply t (f ! (n - 1 - j))"
    unfolding m_def lt_def lc_def c_def spec_multiply_def by (rule refl)
  show ?thesis
    using False by (simp only: 1 2 3 4 5 andthen_def sum.case if_False) (simp only: 6)
qed

lemma ecc_inner_step:
  assumes f: "length f = n" "list_all byte_val f" and t: "byte_val t" and j: "j < n"
    and e: "length ecc = n" "list_all byte_val ecc"
  shows "ecc_inner f (int n) t j ecc = Inr (ecc[j := spec_slot f ecc t j])"
proof -
  define m where "m = (if t = 0 then 0 else spec_multiply t (f ! (n - 1 - j)))"
  have je: "j < length ecc" using j e(1) by simp
  note p = ecc_inner_product [OF f t j je, folded m_def]
  have bm: "byte_val m"
    unfolding m_def using byte_val_spec_multiply by (simp add: byte_val_def)
  show ?thesis
  proof (cases "j + 1 < n")
    case True
    have c: "int j + 1 < int n" using True by simp
    have s: "int j + 1 = int (Suc j)" by simp
    have l1: "Suc j < length (ecc[j := m])" using True e(1) by simp
    have l0: "j < length (ecc[j := m])" using je by simp
    have x: "byte_val (ecc ! Suc j)" using e True byte_val_nth by simp
    have bx: "byte_val (ecc ! Suc j XOR m)" using x bm by (rule byte_val_xor)
    have 1: "subscr (ecc[j := m]) (int j + 1) = Inr (ecc ! Suc j)"
      unfolding s using subscr_nat [OF l1] by simp
    have 2: "subscr (ecc[j := m]) (int j) = Inr m"
      using subscr_nat [OF l0] je by simp
    have 3: "store (ecc[j := m]) (int j) (ecc ! Suc j XOR m) = Inr (ecc[j := ecc ! Suc j XOR m])"
      using store_nat [OF l0 bx] by simp
    have 4: "ecc ! Suc j XOR m = spec_slot f ecc t j"
      unfolding m_def using True e(1) by (simp add: spec_slot_def Let_def xor.commute)
    show ?thesis
      unfolding ecc_inner_def p
      by (simp only: c if_True andthen_def sum.case 1 2 3) (simp only: 4)
  next
    case False
    then have c: "\<not> int j + 1 < int n" by simp
    have 4: "m = spec_slot f ecc t j"
      unfolding m_def using False e(1) by (simp add: spec_slot_def Let_def)
    show ?thesis
      unfolding ecc_inner_def p
      by (simp only: c if_False andthen_def sum.case 4)
  qed
qed

lemma spec_slot_update:
  assumes "k \<le> j"
  shows "spec_slot f (ecc[k := v]) t j = spec_slot f ecc t j"
  using assms by (simp add: spec_slot_def Let_def)

lemma ecc_inner_loop:
  assumes f: "length f = n" "list_all byte_val f" and t: "byte_val t"
    and e: "length ecc = n" "list_all byte_val ecc" and k: "k \<le> n"
  shows "for_loop [k..<n] (ecc_inner f (int n) t) ecc
         = Inr (take k ecc @ map (spec_slot f ecc t) [k..<n])"
  using e k
proof (induction "n - k" arbitrary: k ecc)
  case 0
  then show ?case by simp
next
  case (Suc d)
  then have kn: "k < n" by simp
  let ?e1 = "ecc[k := spec_slot f ecc t k]"
  have step: "ecc_inner f (int n) t k ecc = Inr ?e1"
    using f t kn Suc.prems(1,2) by (rule ecc_inner_step)
  have l1: "length ?e1 = n" using Suc.prems(1) by simp
  have b1: "list_all byte_val ?e1"
    using Suc.prems(2) byte_val_spec_slot [OF Suc.prems(2)] by (rule list_all_update)
  have d: "d = n - Suc k" using Suc.hyps(2) by simp
  have ih: "for_loop [Suc k..<n] (ecc_inner f (int n) t) ?e1
            = Inr (take (Suc k) ?e1 @ map (spec_slot f ?e1 t) [Suc k..<n])"
    using Suc.hyps(1) [OF d l1 b1] kn by simp
  have m: "map (spec_slot f ?e1 t) [Suc k..<n] = map (spec_slot f ecc t) [Suc k..<n]"
    by (rule map_cong) (simp_all add: spec_slot_update)
  have tk: "take (Suc k) ?e1 = take k ecc @ [spec_slot f ecc t k]"
    using kn Suc.prems(1) by (simp add: take_Suc_conv_app_nth)
  have "for_loop [k..<n] (ecc_inner f (int n) t) ecc
        = for_loop [Suc k..<n] (ecc_inner f (int n) t) ?e1"
    using kn by (simp add: upt_conv_Cons step andthen_def)
  also have "\<dots> = Inr (take k ecc @ map (spec_slot f ecc t) [k..<n])"
    using kn by (simp add: ih m tk upt_conv_Cons)
  finally show ?case .
qed

lemma length_spec_sweep: "length (spec_sweep f ecc d) = length ecc"
  by (simp add: spec_sweep_def)

lemma byte_val_spec_sweep:
  "list_all byte_val ecc \<Longrightarrow> list_all byte_val (spec_sweep f ecc d)"
  by (simp add: spec_sweep_def list_all_iff byte_val_spec_slot)

lemma ecc_outer_step:
  assumes f: "length f = n" "list_all byte_val f" and n: "0 < n"
    and e: "length ecc = n" "list_all byte_val ecc"
    and d: "i < length data" "list_all byte_val data"
  shows "ecc_outer data f (int n) i ecc = Inr (spec_sweep f ecc (data ! i))"
proof -
  have 0: "0 < length ecc" using n e(1) by simp
  have 1: "subscr data (int i) = Inr (data ! i)" using d(1) by (rule subscr_nat)
  have 2: "subscr ecc 0 = Inr (ecc ! 0)" using subscr_nat [OF 0] by simp
  have t: "byte_val (data ! i XOR ecc ! 0)"
    using byte_val_nth [OF d(2) d(1)] byte_val_nth [OF e(2) 0] by (rule byte_val_xor)
  have 3: "for_loop [0..<n] (ecc_inner f (int n) (data ! i XOR ecc ! 0)) ecc
           = Inr (spec_sweep f ecc (data ! i))"
    using ecc_inner_loop [OF f t e, of 0] e(1) by (simp add: spec_sweep_def)
  show ?thesis
    unfolding ecc_outer_def by (simp only: 1 2 3 andthen_def sum.case nat_int)
qed

lemma ecc_outer_loop:
  assumes f: "length f = n" "list_all byte_val f" and n: "0 < n"
    and d: "list_all byte_val data"
    and e: "length ecc = n" "list_all byte_val ecc" and k: "k \<le> length data"
  shows "for_loop [k..<length data] (ecc_outer data f (int n)) ecc
         = Inr (foldl (spec_sweep f) ecc (drop k data))"
  using e k
proof (induction "length data - k" arbitrary: k ecc)
  case 0
  then show ?case by simp
next
  case (Suc m)
  then have kd: "k < length data" by simp
  let ?e1 = "spec_sweep f ecc (data ! k)"
  have step: "ecc_outer data f (int n) k ecc = Inr ?e1"
    using f n Suc.prems(1,2) kd d by (rule ecc_outer_step)
  have l1: "length ?e1 = n" using Suc.prems(1) by (simp add: length_spec_sweep)
  have b1: "list_all byte_val ?e1" using Suc.prems(2) by (rule byte_val_spec_sweep)
  have m: "m = length data - Suc k" using Suc.hyps(2) by simp
  have ih: "for_loop [Suc k..<length data] (ecc_outer data f (int n)) ?e1
            = Inr (foldl (spec_sweep f) ?e1 (drop (Suc k) data))"
    using Suc.hyps(1) [OF m l1 b1] kd by simp
  have dr: "drop k data = data ! k # drop (Suc k) data"
    using kd by (simp add: Cons_nth_drop_Suc)
  show ?case
    using kd by (simp add: upt_conv_Cons step andthen_def ih dr)
qed

lemma galois_mult_spec_multiply:
  assumes "byte_val t" "byte_val c"
  shows "galois_mult t c = Inr (spec_multiply t c)"
  using assms galois_mult_bytes [of t c] by (simp add: byte_val_def spec_multiply_def)

text \<open>
  Claim C4.  For a codeword and a factor table of bytes (the table not empty), the ecc
  loop of the script, which updates one accumulator in place, returns without raising
  what the sweep of the specification returns: from the accumulator of \<open>ecc_size\<close>
  zeros, for every codeword byte \<open>d\<close> in order, with \<open>t = d XOR ecc[0]\<close>, slot \<open>j\<close>
  becomes the product of \<open>t\<close> and \<open>factors[ecc_size-1-j]\<close> (zero for \<open>t = 0\<close>) XORed,
  when \<open>j+1 < ecc_size\<close>, with \<open>ecc[j+1]\<close> as the previous byte left it; the accumulator
  after the last byte is the result.  The product is the one \<open>galois_mult\<close> computes.
  (The length of every object is an index-sized integer; for a table longer than that
  the allocation of the accumulator would raise.)
\<close>

theorem rs_ecc_is_single_forward_sweep:
  assumes "list_all byte_val data" "list_all byte_val f" "f \<noteq> []"
  shows "rs_ecc data (int (length data)) (int (length f)) f
           = (if int (length f) \<le> ssize_max then Inr (spec_rs_encode data f)
              else Inl OverflowError)
         \<and> (\<forall>t c. byte_val t \<and> byte_val c \<longrightarrow> galois_mult t c = Inr (spec_multiply t c))"
proof -
  let ?n = "length f"
  let ?z = "replicate ?n (0::int)"
  have n: "0 < ?n" using assms(3) by simp
  have z: "length ?z = ?n" "list_all byte_val ?z"
    by (simp_all add: list_all_iff byte_val_def)
  have "for_loop [0..<length data] (ecc_outer data f (int ?n)) ?z
        = Inr (foldl (spec_sweep f) ?z (drop 0 data))"
    using refl assms(2) n assms(1) z by (rule ecc_outer_loop) simp
  then have "rs_ecc data (int (length data)) (int (length f)) f
           = (if int (length f) \<le> ssize_max then Inr (spec_rs_encode data f)
              else Inl OverflowError)"
    by (simp add: rs_ecc_def bytearray_def ssize_max_def andthen_def spec_rs_encode_def)
  then show ?thesis
    using galois_mult_spec_multiply by blast
qed

theorem rs_ecc_is_single_forward_sweep_witness:
  "list_all byte_val [142, 164, 186] \<and> list_all byte_val [228, 48, 15, 111, 62]
   \<and> [228, 48, 15, 111, 62 :: int] \<noteq> []
   \<and> rs_ecc [142, 164, 186] 3 5 [228, 48, 15, 111, 62] = Inr [114, 25, 5, 88, 102]
   \<and> spec_rs_encode [142, 164, 186] [228, 48, 15, 111, 62] = [114, 25, 5, 88, 102]"
proof -
  have h: "list_all byte_val [142, 164, 186]" "list_all byte_val [228, 48, 15, 111, 62]"
    "[228, 48, 15, 111, 62 :: int] \<noteq> []"
    by (simp_all add: byte_val_def)
  have m: "int (length [228, 48, 15, 111, 62 :: int]) \<le> ssize_max"
    by (simp add: ssize_max_def)
  have s: "spec_rs_encode [142, 164, 186] [228, 48, 15, 111, 62] = [114, 25, 5, 88, 102]"
    by code_simp
  from rs_ecc_is_single_forward_sweep [OF h] m s h show ?thesis by simp
qed

section \<open>The factor table and its zero entries\<close>

lemma galois_pow_loop_closed:
  assumes "1 \<le> a" "a \<le> 255" "1 \<le> r" "r \<le> 255"
  shows "\<exists>q. for_loop js (\<lambda>i r. galois_mult r a) r = Inr q \<and> 1 \<le> q \<and> q \<le> 255"
  using assms(3,4)
proof (induction js arbitrary: r)
  case Nil
  then show ?case by simp
next
  case (Cons i js)
  from galois_mult_closed [of r a] Cons.prems assms(1,2)
  obtain q where q: "galois_mult r a = Inr q" "1 \<le> q" "q \<le> 255" by auto
  from Cons.IH [OF q(2,3)] q(1) show ?case by (simp add: andthen_def)
qed

lemma galois_pow_closed:
  assumes "1 \<le> a" "a \<le> 255"
  shows "\<exists>q. galois_pow a b = Inr q \<and> 1 \<le> q \<and> q \<le> 255"
  using assms galois_pow_loop_closed [OF assms assms, of "[0..<nat (b - 1)]"]
  by (simp add: galois_pow_def)

lemma factor_inner_zero_entry:
  assumes j: "j < length factors" and z: "factors ! j = 0"
    and b: "list_all byte_val factors"
  shows "\<exists>q. galois_pow 2 (int i) = Inr q \<and> 1 \<le> q \<and> q \<le> 255
             \<and> factor_inner i j factors
                 = Inr (factors[j := (if j > 0 then q XOR factors ! (j - 1) else q)])"
proof -
  from galois_pow_closed [of 2 "int i"]
  obtain q where q: "galois_pow 2 (int i) = Inr q" "1 \<le> q" "q \<le> 255" by auto
  have bq: "byte_val q" using q(2,3) by (simp add: byte_val_def)
  have 1: "subscr factors (int j) = Inr 0" using subscr_nat [OF j] z by simp
  have 2: "galois_mult 0 q = Inr q" using q(2,3) by (rule galois_mult_zero_left)
  have 3: "store factors (int j) q = Inr (factors[j := q])" using j bq by (rule store_nat)
  have l0: "j < length (factors[j := q])" using j by simp
  have 4: "subscr (factors[j := q]) (int j) = Inr q" using subscr_nat [OF l0] j by simp
  have r: "factor_inner i j factors
           = Inr (factors[j := (if j > 0 then q XOR factors ! (j - 1) else q)])"
  proof (cases "j > 0")
    case True
    have s: "int j - 1 = int (j - 1)" using True by simp
    have l1: "j - 1 < length (factors[j := q])" using j by simp
    have 5: "subscr (factors[j := q]) (int j - 1) = Inr (factors ! (j - 1))"
      unfolding s using subscr_nat [OF l1] True by simp
    have y: "byte_val (factors ! (j - 1))" using b j by (simp add: list_all_length)
    have bx: "byte_val (q XOR factors ! (j - 1))" using bq y by (rule byte_val_xor)
    have 6: "store (factors[j := q]) (int j) (q XOR factors ! (j - 1))
             = Inr (factors[j := q XOR factors ! (j - 1)])"
      using store_nat [OF l0 bx] by simp
    show ?thesis
      unfolding factor_inner_def using True
      by (simp only: 1 q(1) 2 3 4 5 6 andthen_def sum.case if_True)
  next
    case False
    show ?thesis
      unfolding factor_inner_def using False
      by (simp only: 1 q(1) 2 3 andthen_def sum.case if_False)
  qed
  with q show ?thesis by blast
qed

text \<open>
  Claim C10.  \<open>galois_mult\<close> makes no test for zero; the entry of the log table at 0 is
  \<open>-255\<close>, which vanishes modulo 255, so a zero operand acts as the identity:
  \<open>galois_mult(0, b) = b = galois_mult(b, 0)\<close> for every \<open>b\<close> in \<open>1..255\<close>, and
  \<open>galois_mult(0, 0) = 1\<close>.  The computation of a factor table relies on it: the accumulator
  is allocated as zero bytes (for every count that is an index-sized integer), and a step of the sweep that meets a zero entry multiplies it
  by the power of 2 and obtains that power, as if the entry were 1; so the first step
  yields \<open>2\<close>, and the table for one ecc byte is \<open>[2]\<close>.
\<close>

theorem zero_is_identity_of_galois_mult:
  "(\<forall>b\<in>{1..255}. galois_mult 0 b = Inr b \<and> galois_mult b 0 = Inr b)
   \<and> galois_mult 0 0 = Inr 1
   \<and> subscr galois_log 0 = Inr (- 255)
   \<and> (\<forall>n. bytearray (int n)
              = (if int n \<le> ssize_max then Inr (replicate n 0) else Inl OverflowError)
          \<and> factor_inner 1 0 (replicate (Suc n) 0) = Inr (2 # replicate n 0))
   \<and> (\<forall>i j factors. j < length factors \<and> factors ! j = 0 \<and> list_all byte_val factors \<longrightarrow>
         (\<exists>q\<in>{1..255}. galois_pow 2 (int i) = Inr q
            \<and> factor_inner i j factors
                = Inr (factors[j := (if j > 0 then q XOR factors ! (j - 1) else q)])))
   \<and> factor_table_general 1 = Inr [2]"
proof -
  have e: "\<forall>i j factors. j < length factors \<and> factors ! j = 0 \<and> list_all byte_val factors \<longrightarrow>
         (\<exists>q\<in>{1..255}. galois_pow 2 (int i) = Inr q
            \<and> factor_inner i j factors
                = Inr (factors[j := (if j > 0 then q XOR factors ! (j - 1) else q)]))"
  proof (intro allI impI)
    fix i j factors
    assume h: "j < length factors \<and> factors ! j = 0 \<and> list_all byte_val factors"
    then obtain q where "galois_pow 2 (int i) = Inr q" "1 \<le> q" "q \<le> 255"
      "factor_inner i j factors
         = Inr (factors[j := (if j > 0 then q XOR factors ! (j - 1) else q)])"
      using factor_inner_zero_entry [of j factors i] by blast
    then show "\<exists>q\<in>{1..255}. galois_pow 2 (int i) = Inr q
            \<and> factor_inner i j factors
                = Inr (factors[j := (if j > 0 then q XOR factors ! (j - 1) else q)])"
      by auto
  qed
  have a: "\<forall>b\<in>{1..255}. galois_mult 0 b = Inr b \<and> galois_mult b 0 = Inr b"
    by (simp add: galois_mult_zero_left galois_mult_zero_right)
  have b: "subscr galois_log 0 = Inr (- 255)"
    by (simp add: subscr_def length_galois_log galois_log_0)
  have c: "\<forall>n. bytearray (int n)
              = (if int n \<le> ssize_max then Inr (replicate n 0) else Inl OverflowError)
          \<and> factor_inner 1 0 (replicate (Suc n) 0) = Inr (2 # replicate n 0)"
    using factor_inner_first by (simp add: bytearray_def ssize_max_def del: replicate_Suc)
  have d: "factor_table_general 1 = Inr [2]"
    by code_simp
  from a b c d e galois_mult_zero_zero show ?thesis by blast
qed

theorem zero_is_identity_of_galois_mult_witness:
  "galois_mult 0 45 = Inr 45 \<and> galois_mult 45 0 = Inr 45
   \<and> (1::nat) < length [2, 0 :: int] \<and> [2, 0 :: int] ! 1 = 0 \<and> list_all byte_val [2, 0]
   \<and> factor_inner 2 1 [2, 0] = Inr [2, 6]"
proof -
  note z = zero_is_identity_of_galois_mult
  have m: "galois_mult 0 45 = Inr 45 \<and> galois_mult 45 0 = Inr 45"
    using z by simp
  have h: "(1::nat) < length [2, 0 :: int] \<and> [2, 0 :: int] ! 1 = 0 \<and> list_all byte_val [2, 0]"
    by (simp add: byte_val_def)
  have p: "galois_pow 2 (int 2) = Inr 4" by code_simp
  from z have "\<forall>i j factors. j < length factors \<and> factors ! j = 0 \<and> list_all byte_val factors \<longrightarrow>
         (\<exists>q\<in>{1..255}. galois_pow 2 (int i) = Inr q
            \<and> factor_inner i j factors
                = Inr (factors[j := (if j > 0 then q XOR factors ! (j - 1) else q)]))"
    by blast
  with h obtain q where "galois_pow 2 (int 2) = Inr q"
    "factor_inner 2 1 [2, 0] = Inr ([2, 0][1 := (if (1::nat) > 0 then q XOR [2, 0] ! (1 - 1) else q)])"
    by blast
  with p have "factor_inner 2 1 [2, 0] = Inr [2, 6]" by simp
  with m h show ?thesis by blast
qed

section \<open>Where zero is tested\<close>








end
